theory Spec2Isabelle
  imports Main "HOL-Library.Word"
begin

section \<open>Strings of the host language\<close>

text \<open>
  A JavaScript string is a sequence of 16-bit code units; a regular expression without
  the \<open>u\<close> flag works on code units. \<open>str\<close> writes an ASCII literal as such a
  sequence.
\<close>

type_synonym jschar = "16 word"
type_synonym jsstring = "jschar list"

definition str :: "string \<Rightarrow> jsstring" where
  "str s = map of_char s"

text \<open>
  \<open>String.prototype.substring(a, b)\<close>: both arguments are clamped to the length of
  the string and swapped when \<open>a > b\<close>; it never raises.
\<close>

definition substring :: "jsstring \<Rightarrow> nat \<Rightarrow> nat \<Rightarrow> jsstring" where
  "substring s a b =
     (let a' = min a (length s); b' = min b (length s)
      in take (max a' b' - min a' b') (drop (min a' b') s))"

section \<open>The regular expressions of the rule table\<close>

text \<open>
  All six patterns of \<open>rules\<close> have the shape \<open>D(.*?)D\<close>: a literal delimiter
  \<open>D\<close>, a lazily captured group of characters other than line terminators, and the
  same delimiter again. \<open>Delimited c cs\<close> is that pattern for \<open>D = c # cs\<close>.
\<close>

datatype RegExp = Delimited jschar jsstring

fun delimiter :: "RegExp \<Rightarrow> jsstring" where
  "delimiter (Delimited c cs) = c # cs"

text \<open>The dot of a pattern without the \<open>s\<close> flag matches no line terminator.\<close>

definition isLineTerminator :: "jschar \<Rightarrow> bool" where
  "isLineTerminator c = (c = 0x000A \<or> c = 0x000D \<or> c = 0x2028 \<or> c = 0x2029)"

text \<open>
  \<open>(.*?)D\<close> tried at the head of \<open>s\<close>: the group first takes no character and the
  closing delimiter is tried; each time it fails the group takes one more character,
  which must not be a line terminator. The result is the captured group.
\<close>

fun lazy_group :: "jsstring \<Rightarrow> jsstring \<Rightarrow> jsstring option" where
  "lazy_group d [] = (if d = [] then Some [] else None)"
| "lazy_group d (c # s) =
     (if take (length d) (c # s) = d then Some []
      else if isLineTerminator c then None
      else map_option ((#) c) (lazy_group d s))"

text \<open>The whole pattern tried at the head of \<open>s\<close>.\<close>

definition match_here :: "RegExp \<Rightarrow> jsstring \<Rightarrow> jsstring option" where
  "match_here re s =
     (if take (length (delimiter re)) s = delimiter re
      then lazy_group (delimiter re) (drop (length (delimiter re)) s)
      else None)"

text \<open>
  The result of a successful \<open>exec\<close>: \<open>match.index\<close>, \<open>match[0]\<close> (the matched
  text) and \<open>match[1]\<close> (the captured group).
\<close>

record RegExpExecArray =
  exec_index :: nat
  exec_0 :: jsstring
  exec_1 :: jsstring

text \<open>
  \<open>regex.exec(text)\<close> of a global pattern whose \<open>lastIndex\<close> is given: the pattern
  is tried at \<open>lastIndex\<close>, \<open>lastIndex + 1\<close>, ... up to the end of the text;
  \<open>None\<close> is JavaScript's \<open>null\<close>.
\<close>

function regex_exec :: "RegExp \<Rightarrow> jsstring \<Rightarrow> nat \<Rightarrow> RegExpExecArray option" where
  "regex_exec re text lastIndex =
     (if length text < lastIndex then None
      else case match_here re (drop lastIndex text) of
        Some g \<Rightarrow> Some \<lparr>exec_index = lastIndex,
                         exec_0 = delimiter re @ g @ delimiter re,
                         exec_1 = g\<rparr>
      | None \<Rightarrow> regex_exec re text (Suc lastIndex))"
  by pat_completeness auto
termination
  by (relation "measure (\<lambda>(re, text, lastIndex). Suc (length text) - lastIndex)") auto

declare regex_exec.simps [simp del]

section \<open>The rule table\<close>

record Rule =
  regex :: RegExp
  style :: "string option"
  tag :: "string option"

text \<open>Code units: \<open>~\<close> is 0x7E, \<open>_\<close> 0x5F, \<open>*\<close> 0x2A, \<open>+\<close> 0x2B, \<open>-\<close> 0x2D.\<close>

definition rules :: "Rule list" where
  "rules =
    [\<lparr>regex = Delimited 0x7E [0x7E], style = None, tag = Some ''del''\<rparr>,
     \<lparr>regex = Delimited 0x5F [0x5F], style = None, tag = Some ''u''\<rparr>,
     \<lparr>regex = Delimited 0x2A [0x2A], style = None, tag = Some ''strong''\<rparr>,
     \<lparr>regex = Delimited 0x2A [], style = None, tag = Some ''em''\<rparr>,
     \<lparr>regex = Delimited 0x2B [0x2B], style = Some ''font-size: 1.5em;'', tag = None\<rparr>,
     \<lparr>regex = Delimited 0x2D [0x2D], style = Some ''font-size: 0.5em;'', tag = None\<rparr>]"

section \<open>Facts about one match\<close>

lemma lazy_group_take:
  "lazy_group d s = Some g \<Longrightarrow> take (length g + length d) s = g @ d"
proof (induction s arbitrary: g)
  case Nil
  then show ?case by (simp split: if_splits)
next
  case (Cons c s)
  show ?case
  proof (cases "take (length d) (c # s) = d")
    case True
    with Cons.prems show ?thesis by simp
  next
    case False
    with Cons.prems obtain g' where g': "lazy_group d s = Some g'" "g = c # g'"
      by (auto split: if_splits)
    from Cons.IH [OF g'(1)] g'(2) show ?thesis by simp
  qed
qed

lemma match_here_take:
  assumes "match_here re s = Some g"
  shows "take (length (delimiter re @ g @ delimiter re)) s = delimiter re @ g @ delimiter re"
proof -
  let ?d = "delimiter re"
  from assms have open_d: "take (length ?d) s = ?d"
    and rest: "lazy_group ?d (drop (length ?d) s) = Some g"
    by (auto simp: match_here_def split: if_splits)
  have "take (length ?d + (length g + length ?d)) s =
          take (length ?d) s @ take (length g + length ?d) (drop (length ?d) s)"
    by (rule take_add)
  with open_d lazy_group_take [OF rest] show ?thesis
    by (simp add: add.commute add.left_commute)
qed

lemma delimiter_nonempty: "0 < length (delimiter re)"
  by (cases re) simp

lemma regex_exec_Some:
  "regex_exec re t i = Some m \<Longrightarrow>
     i \<le> exec_index m \<and>
     exec_0 m = delimiter re @ exec_1 m @ delimiter re \<and>
     take (length (exec_0 m)) (drop (exec_index m) t) = exec_0 m"
proof (induction re t i rule: regex_exec.induct)
  case (1 re t lastIndex)
  show ?case
  proof (cases "match_here re (drop lastIndex t)")
    case None
    with "1.prems" have le: "\<not> length t < lastIndex"
      and rec: "regex_exec re t (Suc lastIndex) = Some m"
      by (auto simp: regex_exec.simps [of re t lastIndex] split: if_splits)
    from "1.IH" [OF le None rec] show ?thesis using Suc_leD by blast
  next
    case (Some g)
    with "1.prems" have m: "m = \<lparr>exec_index = lastIndex,
        exec_0 = delimiter re @ g @ delimiter re, exec_1 = g\<rparr>"
      by (auto simp: regex_exec.simps [of re t lastIndex] split: if_splits)
    with match_here_take [OF Some] show ?thesis by simp
  qed
qed

lemma regex_exec_bounds:
  assumes "regex_exec re text i = Some m"
  shows "i \<le> exec_index m" and "0 < length (exec_0 m)"
    and "exec_index m + length (exec_0 m) \<le> length text"
proof -
  note f = regex_exec_Some [OF assms]
  from f show "i \<le> exec_index m" by blast
  from f have "exec_0 m = delimiter re @ exec_1 m @ delimiter re" by blast
  with delimiter_nonempty [of re] show pos: "0 < length (exec_0 m)" by simp
  from f have "take (length (exec_0 m)) (drop (exec_index m) text) = exec_0 m"
    by blast
  then have "length (take (length (exec_0 m)) (drop (exec_index m) text)) = length (exec_0 m)"
    by (rule arg_cong)
  then have "min (length (exec_0 m)) (length text - exec_index m) = length (exec_0 m)"
    by (simp only: length_take length_drop)
  with pos show "exec_index m + length (exec_0 m) \<le> length text"
    by linarith
qed

section \<open>Discovery\<close>

text \<open>
  \<open>while ((match = regex.exec(text)) !== null)\<close>: after a match the pattern's
  \<open>lastIndex\<close> is the end of that match, and the next \<open>exec\<close> starts there.
\<close>

function exec_loop :: "RegExp \<Rightarrow> jsstring \<Rightarrow> nat \<Rightarrow> RegExpExecArray list" where
  "exec_loop re text lastIndex =
     (case regex_exec re text lastIndex of
        None \<Rightarrow> []
      | Some m \<Rightarrow> m # exec_loop re text (exec_index m + length (exec_0 m)))"
  by pat_completeness auto
termination
proof (relation "measure (\<lambda>(re, text, lastIndex). Suc (length text) - lastIndex)")
  show "wf (measure (\<lambda>(re, text, lastIndex). Suc (length text) - lastIndex))"
    by simp
next
  fix re :: RegExp and t :: jsstring and lastIndex :: nat and m :: RegExpExecArray
  assume "regex_exec re t lastIndex = Some m"
  then have "lastIndex \<le> exec_index m" "0 < length (exec_0 m)"
    "exec_index m + length (exec_0 m) \<le> length t"
    by (rule regex_exec_bounds)+
  then have "Suc (length t) - (exec_index m + length (exec_0 m)) < Suc (length t) - lastIndex"
    by linarith
  then show "((re, t, exec_index m + length (exec_0 m)), (re, t, lastIndex))
          \<in> measure (\<lambda>(re, text, lastIndex). Suc (length text) - lastIndex)"
    by simp
qed

declare exec_loop.simps [simp del]

text \<open>An entry of \<open>allMatches\<close>.\<close>

record Match =
  index :: nat
  length_m :: nat
  rule :: Rule
  match :: RegExpExecArray

definition allMatches :: "jsstring \<Rightarrow> Match list" where
  "allMatches text =
     concat (map (\<lambda>rule.
        map (\<lambda>m. \<lparr>index = exec_index m, length_m = length (exec_0 m),
                   rule = rule, match = m\<rparr>)
            (exec_loop (regex rule) text 0)) rules)"

section \<open>Ordering\<close>

text \<open>
  The comparator \<open>(a, b) => a.index - b.index || b.length - a.length\<close>, and
  \<open>Array.prototype.sort\<close>, which is stable: elements that compare equal keep their
  order. Insertion from the right, each element going in front of the first one it does
  not follow, is such a sort.
\<close>

definition compare :: "Match \<Rightarrow> Match \<Rightarrow> int" where
  "compare a b =
     (if int (index a) - int (index b) \<noteq> 0 then int (index a) - int (index b)
      else int (length_m b) - int (length_m a))"

fun insert_match :: "Match \<Rightarrow> Match list \<Rightarrow> Match list" where
  "insert_match a [] = [a]"
| "insert_match a (b # bs) =
     (if compare a b \<le> 0 then a # b # bs else b # insert_match a bs)"

definition sort_matches :: "Match list \<Rightarrow> Match list" where
  "sort_matches ms = foldr insert_match ms []"

section \<open>Selection\<close>

datatype Part = Str jsstring | Obj jsstring Rule

record Range =
  range_start :: nat
  range_end :: nat

record State =
  lastIndex :: nat
  parts :: "Part list"
  processedRanges :: "Range list"

definition isOverlapping :: "Range list \<Rightarrow> nat \<Rightarrow> nat \<Rightarrow> bool" where
  "isOverlapping processed s e =
     list_ex (\<lambda>range. max s (range_start range) < min e (range_end range)) processed"

text \<open>One pass of the body of \<open>for (const {index, length, rule, match} of allMatches)\<close>.\<close>

definition select_step :: "jsstring \<Rightarrow> State \<Rightarrow> Match \<Rightarrow> State" where
  "select_step text st m =
     (let matchStart = index m; matchEnd = index m + length_m m
      in if isOverlapping (processedRanges st) matchStart matchEnd then st
         else \<lparr>lastIndex = matchEnd,
               parts =
                 (if matchStart > lastIndex st
                  then parts st @ [Str (substring text (lastIndex st) matchStart)]
                  else parts st) @ [Obj (exec_1 (match m)) (rule m)],
               processedRanges =
                 processedRanges st @ [\<lparr>range_start = matchStart, range_end = matchEnd\<rparr>]\<rparr>)"

definition initial :: State where
  "initial = \<lparr>lastIndex = 0, parts = [], processedRanges = []\<rparr>"

definition select :: "jsstring \<Rightarrow> State" where
  "select text = foldl (select_step text) initial (sort_matches (allMatches text))"

text \<open>The parts after the trailing text has been pushed.\<close>

definition all_parts :: "jsstring \<Rightarrow> Part list" where
  "all_parts text =
     (let st = select text
      in if lastIndex st < length text
         then parts st @ [Str (substring text (lastIndex st) (length text))]
         else parts st)"

section \<open>Facts about the candidates\<close>

lemma regex_exec_match_here:
  "regex_exec re t i = Some m \<Longrightarrow> match_here re (drop (exec_index m) t) = Some (exec_1 m)"
proof (induction re t i rule: regex_exec.induct)
  case (1 re t lastIndex)
  show ?case
  proof (cases "match_here re (drop lastIndex t)")
    case None
    with "1.prems" have le: "\<not> length t < lastIndex"
      and rec: "regex_exec re t (Suc lastIndex) = Some m"
      by (auto simp: regex_exec.simps [of re t lastIndex] split: if_splits)
    show ?thesis by (rule "1.IH" [OF le None rec])
  next
    case (Some g)
    with "1.prems" have "m = \<lparr>exec_index = lastIndex,
        exec_0 = delimiter re @ g @ delimiter re, exec_1 = g\<rparr>"
      by (auto simp: regex_exec.simps [of re t lastIndex] split: if_splits)
    with Some show ?thesis by simp
  qed
qed

definition found_by :: "RegExp \<Rightarrow> jsstring \<Rightarrow> RegExpExecArray \<Rightarrow> bool" where
  "found_by re t m \<longleftrightarrow>
     exec_0 m = delimiter re @ exec_1 m @ delimiter re \<and>
     match_here re (drop (exec_index m) t) = Some (exec_1 m)"

lemma exec_loop_found:
  "m \<in> set (exec_loop re t i) \<Longrightarrow> found_by re t m"
proof (induction re t i rule: exec_loop.induct)
  case (1 re t lastIndex)
  show ?case
  proof (cases "regex_exec re t lastIndex")
    case None
    with "1.prems" show ?thesis by (simp add: exec_loop.simps [of re t lastIndex])
  next
    case (Some m')
    with "1.prems" have "m = m' \<or> m \<in> set (exec_loop re t (exec_index m' + length (exec_0 m')))"
      by (simp add: exec_loop.simps [of re t lastIndex])
    then show ?thesis
    proof
      assume "m = m'"
      with regex_exec_Some [OF Some] regex_exec_match_here [OF Some]
      show ?thesis by (simp add: found_by_def)
    next
      assume "m \<in> set (exec_loop re t (exec_index m' + length (exec_0 m')))"
      then show ?thesis by (rule "1.IH" [OF Some])
    qed
  qed
qed

definition candidate :: "jsstring \<Rightarrow> Match \<Rightarrow> bool" where
  "candidate t m \<longleftrightarrow>
     rule m \<in> set rules \<and> index m = exec_index (match m) \<and>
     length_m m = length (exec_0 (match m)) \<and>
     found_by (regex (rule m)) t (match m)"

lemma allMatches_candidate:
  "m \<in> set (allMatches t) \<Longrightarrow> candidate t m"
  by (auto simp: allMatches_def candidate_def dest: exec_loop_found)

lemma candidate_span:
  assumes "candidate t m"
  shows "take (length_m m) (drop (index m) t) =
           delimiter (regex (rule m)) @ exec_1 (match m) @ delimiter (regex (rule m))"
    and "0 < length_m m" and "index m + length_m m \<le> length t"
proof -
  let ?d = "delimiter (regex (rule m))"
  from assms have e0: "exec_0 (match m) = ?d @ exec_1 (match m) @ ?d"
    and mh: "match_here (regex (rule m)) (drop (index m) t) = Some (exec_1 (match m))"
    and len: "length_m m = length (exec_0 (match m))"
    by (simp_all add: candidate_def found_by_def)
  from match_here_take [OF mh] e0 len
  show tk: "take (length_m m) (drop (index m) t) = ?d @ exec_1 (match m) @ ?d"
    by simp
  from e0 len delimiter_nonempty [of "regex (rule m)"] show pos: "0 < length_m m"
    by simp
  from tk e0 len have "length (take (length_m m) (drop (index m) t)) = length_m m"
    by simp
  then have "min (length_m m) (length t - index m) = length_m m"
    by (simp only: length_take length_drop)
  with pos show "index m + length_m m \<le> length t"
    by linarith
qed

section \<open>Facts about the ordering\<close>

lemma set_insert_match: "set (insert_match a bs) = insert a (set bs)"
  by (induction bs) auto

lemma set_sort_matches: "set (sort_matches ms) = set ms"
  by (induction ms) (simp_all add: sort_matches_def set_insert_match)

lemma sort_matches_Cons: "sort_matches (a # ms) = insert_match a (sort_matches ms)"
  by (simp add: sort_matches_def)

text \<open>
  The order the comparator and the stability of the sort give: start ascending, then
  length descending, then the relation \<open>R\<close> that held between an element and those
  after it in the list that was sorted.
\<close>

definition precedes :: "(Match \<Rightarrow> Match \<Rightarrow> bool) \<Rightarrow> Match \<Rightarrow> Match \<Rightarrow> bool" where
  "precedes R a b \<longleftrightarrow>
     index a < index b \<or>
     (index a = index b \<and> (length_m b < length_m a \<or> (length_m a = length_m b \<and> R a b)))"

lemma compare_le_0: "compare a b \<le> 0 \<longleftrightarrow>
    index a < index b \<or> (index a = index b \<and> length_m b \<le> length_m a)"
  by (auto simp: compare_def)

lemma sorted_insert_match:
  assumes "sorted_wrt (precedes R) bs" and "\<forall>b \<in> set bs. R a b"
  shows "sorted_wrt (precedes R) (insert_match a bs)"
  using assms
proof (induction bs)
  case Nil
  then show ?case by simp
next
  case (Cons b bs)
  show ?case
  proof (cases "compare a b \<le> 0")
    case True
    have "precedes R a c" if "c \<in> set (b # bs)" for c
    proof -
      from that Cons.prems(2) have "R a c" by blast
      from that Cons.prems(1) have "c = b \<or> precedes R b c" by auto
      with True \<open>R a c\<close> show ?thesis
        by (auto simp: precedes_def compare_le_0)
    qed
    with True Cons.prems(1) show ?thesis by simp
  next
    case False
    then have "precedes R b a"
      by (auto simp: precedes_def compare_le_0)
    with False Cons show ?thesis
      by (auto simp: set_insert_match)
  qed
qed

lemma sorted_sort_matches:
  "sorted_wrt R ms \<Longrightarrow> sorted_wrt (precedes R) (sort_matches ms)"
proof (induction ms)
  case Nil
  then show ?case by (simp add: sort_matches_def)
next
  case (Cons a ms)
  then show ?case
    by (simp add: sort_matches_Cons sorted_insert_match set_sort_matches)
qed

lemma sorted_by_index:
  "sorted_wrt (\<lambda>a b. index a \<le> index b) (sort_matches ms)"
proof -
  have "sorted_wrt (\<lambda>a b. True) ms"
    by (induction ms) simp_all
  then have "sorted_wrt (precedes (\<lambda>a b. True)) (sort_matches ms)"
    by (rule sorted_sort_matches)
  then show ?thesis
    by (rule sorted_wrt_mono_rel [rotated]) (auto simp: precedes_def)
qed

section \<open>The parts tile the text\<close>

text \<open>The text of the input a part stands for: a literal itself, a match with its delimiters.\<close>

fun part_source :: "Part \<Rightarrow> jsstring" where
  "part_source (Str s) = s"
| "part_source (Obj content r) =
     delimiter (regex r) @ content @ delimiter (regex r)"

text \<open>
  The offsets \<open>(start, end)\<close> of the match parts when the parts are laid out one after
  the other from offset \<open>pos\<close>.
\<close>

fun match_spans :: "nat \<Rightarrow> Part list \<Rightarrow> (nat \<times> nat) list" where
  "match_spans pos [] = []"
| "match_spans pos (Str s # ps) = match_spans (pos + length s) ps"
| "match_spans pos (Obj content r # ps) =
     (pos, pos + length (part_source (Obj content r))) #
       match_spans (pos + length (part_source (Obj content r))) ps"

definition range_pair :: "Range \<Rightarrow> nat \<times> nat" where
  "range_pair r = (range_start r, range_end r)"

lemma match_spans_append:
  "match_spans pos (ps @ qs) =
     match_spans pos ps @ match_spans (pos + length (concat (map part_source ps))) qs"
proof (induction ps arbitrary: pos)
  case Nil
  show ?case by simp
next
  case (Cons p ps)
  show ?case
    by (cases p) (simp_all add: Cons.IH add.assoc)
qed

lemma substring_take_drop:
  "a \<le> b \<Longrightarrow> b \<le> length s \<Longrightarrow> substring s a b = take (b - a) (drop a s)"
  by (simp add: substring_def Let_def min_def max_def)

lemma isOverlapping_iff:
  "isOverlapping processed s e \<longleftrightarrow>
     (\<exists>r \<in> set processed. {s..<e} \<inter> {range_start r..<range_end r} \<noteq> {})"
proof -
  have "max s a < min e b \<longleftrightarrow> {s..<e} \<inter> {a..<b} \<noteq> {}" for a b :: nat
  proof
    assume "max s a < min e b"
    then have "max s a \<in> {s..<e} \<inter> {a..<b}" by simp
    then show "{s..<e} \<inter> {a..<b} \<noteq> {}" by blast
  next
    assume "{s..<e} \<inter> {a..<b} \<noteq> {}"
    then obtain x where "x \<in> {s..<e} \<inter> {a..<b}" by blast
    then show "max s a < min e b" by simp
  qed
  then show ?thesis
    by (simp add: isOverlapping_def list_ex_iff)
qed

definition tiled :: "jsstring \<Rightarrow> State \<Rightarrow> bool" where
  "tiled t st \<longleftrightarrow>
     lastIndex st \<le> length t \<and>
     concat (map part_source (parts st)) = take (lastIndex st) t \<and>
     match_spans 0 (parts st) = map range_pair (processedRanges st) \<and>
     sorted_wrt (\<lambda>r r'. range_end r \<le> range_start r') (processedRanges st) \<and>
     list_all (\<lambda>r. range_start r < range_end r \<and> range_end r \<le> lastIndex st)
       (processedRanges st) \<and>
     lastIndex st =
       (if processedRanges st = [] then 0 else range_end (last (processedRanges st)))"

lemma tiled_initial: "tiled t initial"
  by (simp add: tiled_def initial_def)

lemma accepted_after_lastIndex:
  assumes t: "tiled t st" and c: "candidate t m"
    and after: "\<forall>r \<in> set (processedRanges st). range_start r \<le> index m"
    and free: "\<not> isOverlapping (processedRanges st) (index m) (index m + length_m m)"
  shows "lastIndex st \<le> index m"
proof (cases "processedRanges st = []")
  case True
  with t show ?thesis by (simp add: tiled_def)
next
  case False
  let ?r = "last (processedRanges st)"
  from False have mem: "?r \<in> set (processedRanges st)" by simp
  from t False have le: "range_end ?r = lastIndex st" by (simp add: tiled_def)
  from t mem have ne: "range_start ?r < range_end ?r" by (simp add: tiled_def list_all_iff)
  from after mem have st: "range_start ?r \<le> index m" by blast
  from free mem have "\<not> max (index m) (range_start ?r) < min (index m + length_m m) (range_end ?r)"
    by (auto simp: isOverlapping_def list_ex_iff)
  with st ne candidate_span(2) [OF c] le show ?thesis
    by (simp add: max_def min_def split: if_splits)
qed

lemma select_step_tiled:
  assumes t: "tiled t st" and c: "candidate t m"
    and after: "\<forall>r \<in> set (processedRanges st). range_start r \<le> index m"
  shows "tiled t (select_step t st m)"
proof (cases "isOverlapping (processedRanges st) (index m) (index m + length_m m)")
  case True
  with t show ?thesis by (simp add: select_step_def Let_def)
next
  case False
  let ?s = "index m" and ?e = "index m + length_m m"
  let ?gap = "if ?s > lastIndex st then [Str (substring t (lastIndex st) ?s)] else []"
  let ?obj = "Obj (exec_1 (match m)) (rule m)"
  from accepted_after_lastIndex [OF t c after False] have ls: "lastIndex st \<le> ?s" .
  note span = candidate_span [OF c]
  from span(3) have s_le: "?s \<le> length t" by simp
  have step: "select_step t st m =
      \<lparr>lastIndex = ?e, parts = parts st @ ?gap @ [?obj],
       processedRanges = processedRanges st @ [\<lparr>range_start = ?s, range_end = ?e\<rparr>]\<rparr>"
    using False by (simp add: select_step_def Let_def)
  have gap_src: "concat (map part_source ?gap) = take (?s - lastIndex st) (drop (lastIndex st) t)"
    using ls s_le by (simp add: substring_take_drop)
  have obj_src: "part_source ?obj = take (length_m m) (drop ?s t)"
    using span(1) by simp
  have upto_s: "concat (map part_source (parts st @ ?gap)) = take ?s t"
  proof -
    from t have "concat (map part_source (parts st)) = take (lastIndex st) t"
      by (simp add: tiled_def)
    then have "concat (map part_source (parts st @ ?gap)) =
        take (lastIndex st) t @ take (?s - lastIndex st) (drop (lastIndex st) t)"
      using gap_src by simp
    also have "\<dots> = take (lastIndex st + (?s - lastIndex st)) t"
      by (rule take_add [symmetric])
    finally show ?thesis using ls by simp
  qed
  have src: "concat (map part_source (parts st @ ?gap @ [?obj])) = take ?e t"
  proof -
    have "concat (map part_source (parts st @ ?gap @ [?obj])) =
        concat (map part_source (parts st @ ?gap)) @ part_source ?obj"
      by simp
    also have "\<dots> = take ?s t @ take (length_m m) (drop ?s t)"
      by (simp only: upto_s obj_src)
    also have "\<dots> = take ?e t"
      by (rule take_add [symmetric])
    finally show ?thesis .
  qed
  have len_s: "length (concat (map part_source (parts st @ ?gap))) = ?s"
  proof -
    have "length (concat (map part_source (parts st @ ?gap))) = length (take ?s t)"
      by (simp only: upto_s)
    with s_le show ?thesis by simp
  qed
  have len_obj: "length (part_source ?obj) = length_m m"
  proof -
    have "length (part_source ?obj) = length (take (length_m m) (drop ?s t))"
      by (simp only: obj_src)
    with span(3) show ?thesis by simp
  qed
  have gap_spans: "match_spans pos ?gap = []" for pos
    by simp
  have spans: "match_spans 0 (parts st @ ?gap @ [?obj]) =
      map range_pair (processedRanges st) @ [(?s, ?e)]"
  proof -
    have "match_spans 0 ((parts st @ ?gap) @ [?obj]) =
        match_spans 0 (parts st @ ?gap) @ match_spans ?s [?obj]"
      by (simp only: match_spans_append len_s add_0)
    also have "match_spans 0 (parts st @ ?gap) = match_spans 0 (parts st)"
      by (simp only: match_spans_append gap_spans append_Nil2)
    also have "match_spans 0 (parts st) = map range_pair (processedRanges st)"
      using t by (simp add: tiled_def)
    also have "match_spans ?s [?obj] = [(?s, ?e)]"
      using len_obj by (simp del: part_source.simps)
    finally show ?thesis by simp
  qed
  from t have old: "list_all (\<lambda>r. range_start r < range_end r \<and> range_end r \<le> lastIndex st)
      (processedRanges st)"
    and chain: "sorted_wrt (\<lambda>r r'. range_end r \<le> range_start r') (processedRanges st)"
    unfolding tiled_def by blast+
  from old ls have old_s: "\<forall>r \<in> set (processedRanges st). range_end r \<le> ?s"
    by (auto simp: list_all_iff)
  from old ls have old_e: "list_all (\<lambda>r. range_start r < range_end r \<and> range_end r \<le> ?e)
      (processedRanges st)"
    by (auto simp: list_all_iff)
  show ?thesis
    unfolding step tiled_def
    using span(2,3) src spans chain old_s old_e
    by (simp add: sorted_wrt_append range_pair_def)
qed

lemma foldl_select_step_tiled:
  assumes "tiled t st" and "\<forall>m \<in> set ms. candidate t m"
    and "sorted_wrt (\<lambda>a b. index a \<le> index b) ms"
    and "\<forall>r \<in> set (processedRanges st). \<forall>m \<in> set ms. range_start r \<le> index m"
  shows "tiled t (foldl (select_step t) st ms)"
  using assms
proof (induction ms arbitrary: st)
  case Nil
  then show ?case by simp
next
  case (Cons m ms)
  from Cons.prems have step: "tiled t (select_step t st m)"
    by (intro select_step_tiled) auto
  have "\<forall>r \<in> set (processedRanges (select_step t st m)). \<forall>m' \<in> set ms. range_start r \<le> index m'"
    using Cons.prems(3,4) by (auto simp: select_step_def Let_def)
  with step Cons.prems(2,3) have "tiled t (foldl (select_step t) (select_step t st m) ms)"
    by (intro Cons.IH) auto
  then show ?case by simp
qed

lemma select_tiled: "tiled t (select t)"
  unfolding select_def
proof (rule foldl_select_step_tiled)
  show "tiled t initial" by (rule tiled_initial)
  show "\<forall>m \<in> set (sort_matches (allMatches t)). candidate t m"
    by (simp add: set_sort_matches allMatches_candidate)
  show "sorted_wrt (\<lambda>a b. index a \<le> index b) (sort_matches (allMatches t))"
    by (rule sorted_by_index)
  show "\<forall>r \<in> set (processedRanges initial).
      \<forall>m \<in> set (sort_matches (allMatches t)). range_start r \<le> index m"
    by (simp add: initial_def)
qed

lemma all_parts_source: "concat (map part_source (all_parts t)) = t"
proof -
  let ?st = "select t"
  from select_tiled [of t] have le: "lastIndex ?st \<le> length t"
    and src: "concat (map part_source (parts ?st)) = take (lastIndex ?st) t"
    by (simp_all add: tiled_def)
  show ?thesis
  proof (cases "lastIndex ?st < length t")
    case True
    then have "substring t (lastIndex ?st) (length t) = drop (lastIndex ?st) t"
      by (simp add: substring_take_drop)
    with True src show ?thesis by (simp add: all_parts_def Let_def)
  next
    case False
    with le src show ?thesis by (simp add: all_parts_def Let_def)
  qed
qed

section \<open>Emission\<close>

lemma part_source_le:
  assumes "p \<in> set (all_parts t)"
  shows "length (part_source p) \<le> length t"
proof -
  from assms obtain ps qs where "all_parts t = ps @ p # qs"
    by (auto dest: split_list)
  then have "concat (map part_source (all_parts t)) =
      concat (map part_source ps) @ part_source p @ concat (map part_source qs)"
    by simp
  then have "t = concat (map part_source ps) @ part_source p @ concat (map part_source qs)"
    by (simp only: all_parts_source)
  then have "length t =
      length (concat (map part_source ps)) + length (part_source p) +
      length (concat (map part_source qs))"
    by (simp only: length_append add.assoc)
  then show ?thesis by linarith
qed

lemma content_shorter:
  assumes "Obj content r \<in> set (all_parts t)"
  shows "length content + 2 * length (delimiter (regex r)) \<le> length t"
  using part_source_le [OF assms] by simp

text \<open>
  What the sink receives: \<open>appendText(part)\<close> appends a text node, \<open>createEl\<close> an
  element with a tag name, the \<open>style.cssText\<close> the code sets, and children.
\<close>

datatype Node = TextNode jsstring | Element string string "Node list"

text \<open>
  \<open>parentEl.createEl(rule.tag || "span")\<close> followed by
  \<open>if (rule.style) span.style.cssText += rule.style\<close>.
\<close>

definition createEl :: "Rule \<Rightarrow> Node list \<Rightarrow> Node" where
  "createEl r children =
     Element (case tag r of Some name \<Rightarrow> name | None \<Rightarrow> ''span'')
             (case style r of Some css \<Rightarrow> css | None \<Rightarrow> [])
             children"

text \<open>\<open>applyRules(text, parentEl)\<close>: the result is what it appends to \<open>parentEl\<close>.\<close>

function applyRules :: "jsstring \<Rightarrow> Node list" where
  "applyRules text =
     map (\<lambda>part. case part of
            Str s \<Rightarrow> TextNode s
          | Obj content r \<Rightarrow> createEl r (applyRules content))
         (all_parts text)"
  by pat_completeness auto
termination
proof (relation "measure length")
  show "wf (measure (length :: jsstring \<Rightarrow> nat))" by simp
next
  fix t :: jsstring and p :: Part and content :: jsstring and r :: Rule
  assume "p \<in> set (all_parts t)" and "p = Obj content r"
  then have "Obj content r \<in> set (all_parts t)" by simp
  from content_shorter [OF this] delimiter_nonempty [of "regex r"]
  have "length content < length t" by linarith
  then show "(content, t) \<in> measure length" by simp
qed

declare applyRules.simps [simp del]

definition parseAndRenderLine :: "jsstring \<Rightarrow> Node list" where
  "parseAndRenderLine line = applyRules line"

text \<open>The callback of \<open>parts.forEach\<close>, named, and \<open>applyRules\<close> in terms of it.\<close>

definition emit :: "Part \<Rightarrow> Node" where
  "emit part =
     (case part of
        Str s \<Rightarrow> TextNode s
      | Obj content r \<Rightarrow> createEl r (applyRules content))"

lemma applyRules_emit [code]: "applyRules t = map emit (all_parts t)"
  by (subst applyRules.simps) (simp add: emit_def)

lemma emit_simps [code]:
  "emit (Str s) = TextNode s"
  "emit (Obj content r) = createEl r (applyRules content)"
  by (simp_all add: emit_def)

section \<open>Fixed inputs and texts without a match\<close>

lemma exec_loop_Nil_iff:
  "exec_loop re t i = [] \<longleftrightarrow> regex_exec re t i = None"
  by (subst exec_loop.simps) (simp split: option.splits)

lemma allMatches_Nil_iff:
  "allMatches t = [] \<longleftrightarrow> list_all (\<lambda>r. regex_exec (regex r) t 0 = None) rules"
  by (simp add: allMatches_def exec_loop_Nil_iff list_all_iff)

lemma no_match_parts:
  assumes "allMatches t = []"
  shows "all_parts t = (if t = [] then [] else [Str t])"
proof -
  from assms have "select t = initial"
    by (simp add: select_def sort_matches_def)
  then show ?thesis
    by (simp add: all_parts_def initial_def substring_def)
qed

text \<open>
  C10. For the empty input no pattern matches and nothing is left after the loop, so
  \<open>applyRules\<close> appends no node at all.
\<close>

theorem empty_input_no_nodes: "applyRules [] = []"
  by code_simp

text \<open>
  C7. A capture of length zero is a match like any other: on \<open>****\<close> the strong
  pattern matches the whole text, and the output is one \<open>strong\<close> element with no
  children; no text node is appended anywhere.
\<close>

theorem empty_payload_container:
  "applyRules (str ''****'') = [Element ''strong'' [] []]"
  by code_simp

text \<open>
  C6. On \<open>**bold *and italic*__too__**\<close> the output is one \<open>strong\<close> element; its
  children, from the recursive call on the capture, are the text \<open>bold \<close>, an
  \<open>em\<close> element holding \<open>and italic\<close> and a \<open>u\<close> element holding \<open>too\<close>.
\<close>

theorem nesting_example:
  "applyRules (str ''**bold *and italic*__too__**'') =
     [Element ''strong'' []
        [TextNode (str ''bold ''),
         Element ''em'' [] [TextNode (str ''and italic'')],
         Element ''u'' [] [TextNode (str ''too'')]]]"
  by code_simp

text \<open>
  C4, as stated, fails: on \<open>**oops\<close> the output is not the single text node
  \<open>**oops\<close>.
\<close>

theorem unterminated_strong_counterexample:
  "applyRules (str ''**oops'') \<noteq> [TextNode (str ''**oops'')]"
  by code_simp

text \<open>
  C4, amended. On \<open>**oops\<close> the strong pattern finds nothing, so the unterminated
  \<open>**\<close> gives no candidate for that pair; the emphasis pattern matches the two
  asterisks as a pair around an empty capture, and the output is an empty \<open>em\<close>
  element followed by the text \<open>oops\<close>.
\<close>

theorem unterminated_strong_output:
  "tag (rules ! 2) = Some ''strong'' \<and>
   regex_exec (regex (rules ! 2)) (str ''**oops'') 0 = None \<and>
   applyRules (str ''**oops'') = [Element ''em'' [] [], TextNode (str ''oops'')]"
  by code_simp

text \<open>
  C5, as stated, fails at the empty text: no pattern matches in it, and the output is
  the empty sequence, not one text node.
\<close>

theorem no_match_counterexample:
  "list_all (\<lambda>r. regex_exec (regex r) [] 0 = None) rules \<and> applyRules [] \<noteq> [TextNode []]"
  by code_simp

text \<open>
  C5, amended. For every text that is not empty and in which no pattern of the rule
  table matches anywhere, the output is exactly one text node holding the text.
\<close>

theorem no_match_single_literal:
  assumes "t \<noteq> []" and "list_all (\<lambda>r. regex_exec (regex r) t 0 = None) rules"
  shows "applyRules t = [TextNode t]"
proof -
  from assms(2) have "allMatches t = []"
    by (simp only: allMatches_Nil_iff)
  with assms(1) have "all_parts t = [Str t]"
    by (simp add: no_match_parts)
  then show ?thesis
    by (simp add: applyRules_emit emit_simps)
qed

theorem no_match_single_literal_witness:
  "str ''a*b~c'' \<noteq> [] \<and>
   list_all (\<lambda>r. regex_exec (regex r) (str ''a*b~c'') 0 = None) rules \<and>
   applyRules (str ''a*b~c'') = [TextNode (str ''a*b~c'')]"
proof -
  have ne: "str ''a*b~c'' \<noteq> []" by code_simp
  have none: "list_all (\<lambda>r. regex_exec (regex r) (str ''a*b~c'') 0 = None) rules"
    by code_simp
  from ne none no_match_single_literal [OF ne none] show ?thesis by simp
qed

section \<open>Selection keeps the accepted ranges apart\<close>

lemma select_ranges_chain:
  "sorted_wrt (\<lambda>r r'. range_end r \<le> range_start r') (processedRanges (select t))"
  using select_tiled [of t] unfolding tiled_def by blast

lemma select_step_overlapping:
  "isOverlapping (processedRanges st) (index m) (index m + length_m m) \<Longrightarrow>
     select_step t st m = st"
  by (simp add: select_step_def Let_def)

lemma select_step_free:
  "\<not> isOverlapping (processedRanges st) (index m) (index m + length_m m) \<Longrightarrow>
     processedRanges (select_step t st m) =
       processedRanges st @ [\<lparr>range_start = index m, range_end = index m + length_m m\<rparr>]"
  by (simp add: select_step_def Let_def)

text \<open>
  C3. \<open>isOverlapping\<close> holds exactly when the interval from \<open>s\<close> up to, not
  including, \<open>e\<close> shares a position with an accepted range. A pass of the loop leaves
  the state as it is for a candidate that overlaps, and appends the candidate's whole
  interval to the accepted ranges otherwise. The ranges accepted for a text are pairwise
  disjoint.
\<close>

theorem selection_disjoint:
  "(isOverlapping processed s e \<longleftrightarrow>
      (\<exists>r \<in> set processed. {s..<e} \<inter> {range_start r..<range_end r} \<noteq> {})) \<and>
   (isOverlapping (processedRanges st) (index m) (index m + length_m m) \<longrightarrow>
      select_step t st m = st) \<and>
   (\<not> isOverlapping (processedRanges st) (index m) (index m + length_m m) \<longrightarrow>
      processedRanges (select_step t st m) =
        processedRanges st @ [\<lparr>range_start = index m, range_end = index m + length_m m\<rparr>]) \<and>
   (\<forall>i j. i < j \<and> j < length (processedRanges (select t)) \<longrightarrow>
      {range_start (processedRanges (select t) ! i)..<range_end (processedRanges (select t) ! i)} \<inter>
      {range_start (processedRanges (select t) ! j)..<range_end (processedRanges (select t) ! j)} = {})"
proof (intro conjI allI impI)
  show "isOverlapping processed s e \<longleftrightarrow>
      (\<exists>r \<in> set processed. {s..<e} \<inter> {range_start r..<range_end r} \<noteq> {})"
    by (rule isOverlapping_iff)
next
  assume "isOverlapping (processedRanges st) (index m) (index m + length_m m)"
  then show "select_step t st m = st" by (rule select_step_overlapping)
next
  assume "\<not> isOverlapping (processedRanges st) (index m) (index m + length_m m)"
  then show "processedRanges (select_step t st m) =
      processedRanges st @ [\<lparr>range_start = index m, range_end = index m + length_m m\<rparr>]"
    by (rule select_step_free)
next
  fix i j
  let ?rs = "processedRanges (select t)"
  assume "i < j \<and> j < length ?rs"
  with select_ranges_chain [of t] have "range_end (?rs ! i) \<le> range_start (?rs ! j)"
    by (simp add: sorted_wrt_iff_nth_less)
  then show "{range_start (?rs ! i)..<range_end (?rs ! i)} \<inter>
      {range_start (?rs ! j)..<range_end (?rs ! j)} = {}"
    by auto
qed

text \<open>A run to read the theorems on: the text \<open>**a** *b*\<close>.\<close>

definition example_text :: jsstring where
  "example_text = str ''**a** *b*''"

definition example_sorted :: "Match list" where
  "example_sorted = sort_matches (allMatches example_text)"

definition example_state :: State where
  "example_state = foldl (select_step example_text) initial (take 1 example_sorted)"

theorem selection_disjoint_witness:
  "isOverlapping (processedRanges example_state) (index (example_sorted ! 1))
     (index (example_sorted ! 1) + length_m (example_sorted ! 1)) \<and>
   select_step example_text example_state (example_sorted ! 1) = example_state \<and>
   \<not> isOverlapping (processedRanges example_state) (index (example_sorted ! 3))
     (index (example_sorted ! 3) + length_m (example_sorted ! 3)) \<and>
   processedRanges (select_step example_text example_state (example_sorted ! 3)) =
     [\<lparr>range_start = 0, range_end = 5\<rparr>, \<lparr>range_start = 6, range_end = 9\<rparr>] \<and>
   (0::nat) < 1 \<and> 1 < length (processedRanges (select example_text)) \<and>
   {range_start (processedRanges (select example_text) ! 0)..<
    range_end (processedRanges (select example_text) ! 0)} \<inter>
   {range_start (processedRanges (select example_text) ! 1)..<
    range_end (processedRanges (select example_text) ! 1)} = {}"
proof -
  have over: "isOverlapping (processedRanges example_state) (index (example_sorted ! 1))
     (index (example_sorted ! 1) + length_m (example_sorted ! 1))"
    by code_simp
  have free: "\<not> isOverlapping (processedRanges example_state) (index (example_sorted ! 3))
     (index (example_sorted ! 3) + length_m (example_sorted ! 3))"
    by code_simp
  have ranges: "processedRanges example_state @
      [\<lparr>range_start = index (example_sorted ! 3),
        range_end = index (example_sorted ! 3) + length_m (example_sorted ! 3)\<rparr>] =
      [\<lparr>range_start = 0, range_end = 5\<rparr>, \<lparr>range_start = 6, range_end = 9\<rparr>]"
    by code_simp
  have two: "(0::nat) < 1 \<and> 1 < length (processedRanges (select example_text))"
    by code_simp
  from selection_disjoint [of "processedRanges example_state" 3 6 example_state
      "example_sorted ! 1" example_text] over
  have a: "select_step example_text example_state (example_sorted ! 1) = example_state"
    by blast
  from selection_disjoint [of "processedRanges example_state" 3 6 example_state
      "example_sorted ! 3" example_text] free
  have "processedRanges (select_step example_text example_state (example_sorted ! 3)) =
     processedRanges example_state @
      [\<lparr>range_start = index (example_sorted ! 3),
        range_end = index (example_sorted ! 3) + length_m (example_sorted ! 3)\<rparr>]"
    by blast
  then have b: "processedRanges (select_step example_text example_state (example_sorted ! 3)) =
     [\<lparr>range_start = 0, range_end = 5\<rparr>, \<lparr>range_start = 6, range_end = 9\<rparr>]"
    by (simp only: ranges)
  from selection_disjoint [of "processedRanges example_state" 3 6 example_state
      "example_sorted ! 1" example_text] two
  have c: "{range_start (processedRanges (select example_text) ! 0)..<
    range_end (processedRanges (select example_text) ! 0)} \<inter>
   {range_start (processedRanges (select example_text) ! 1)..<
    range_end (processedRanges (select example_text) ! 1)} = {}"
    by blast
  from over a free b two c show ?thesis by blast
qed

section \<open>Depth of the recursion\<close>

text \<open>The depth to which elements are nested: one level per recursive call.\<close>

fun depth :: "Node \<Rightarrow> nat" where
  "depth (TextNode s) = 0"
| "depth (Element name css children) = Suc (foldr max (map depth children) 0)"

definition nesting :: "Node list \<Rightarrow> nat" where
  "nesting nodes = foldr max (map depth nodes) 0"


lemma foldr_max_le: "foldr max (map f xs) 0 \<le> (n::nat) \<longleftrightarrow> (\<forall>x \<in> set xs. f x \<le> n)"
  by (induction xs) auto

lemma two_more:
  "2 * a \<le> c \<Longrightarrow> c + 2 * d \<le> l \<Longrightarrow> 0 < d \<Longrightarrow> 2 * Suc a \<le> (l::nat)"
  by simp

lemma depth_createEl: "depth (createEl r children) = Suc (nesting children)"
  by (simp add: createEl_def nesting_def)

lemma content_in_text:
  assumes "Obj content r \<in> set (all_parts t)"
  shows "\<exists>before after.
    t = before @ delimiter (regex r) @ content @ delimiter (regex r) @ after"
proof -
  from assms obtain ps qs where "all_parts t = ps @ Obj content r # qs"
    by (auto dest: split_list)
  then have "concat (map part_source (all_parts t)) =
      concat (map part_source ps) @ delimiter (regex r) @ content @ delimiter (regex r) @
      concat (map part_source qs)"
    by simp
  then have "t = concat (map part_source ps) @ delimiter (regex r) @ content @
      delimiter (regex r) @ concat (map part_source qs)"
    by (simp only: all_parts_source)
  then show ?thesis by blast
qed

lemma nesting_bound: "2 * nesting (applyRules t) \<le> length t"
proof (induction t rule: applyRules.induct)
  case (1 t)
  have "2 * depth (emit p) \<le> length t" if p: "p \<in> set (all_parts t)" for p
  proof (cases p)
    case (Str s)
    then show ?thesis by (simp add: emit_simps)
  next
    case (Obj content r)
    from "1.IH" [OF p Obj] have "2 * nesting (applyRules content) \<le> length content" .
    moreover from p Obj have "length content + 2 * length (delimiter (regex r)) \<le> length t"
      by (simp add: content_shorter)
    moreover note delimiter_nonempty [of "regex r"]
    ultimately have "2 * Suc (nesting (applyRules content)) \<le> length t"
      by (rule two_more)
    with Obj show ?thesis by (simp only: emit_simps depth_createEl)
  qed
  then have "\<forall>p \<in> set (all_parts t). depth (emit p) \<le> length t div 2"
    by (auto simp: less_eq_div_iff_mult_less_eq mult.commute)
  then have "foldr max (map (\<lambda>p. depth (emit p)) (all_parts t)) 0 \<le> length t div 2"
    by (simp only: foldr_max_le)
  then have "nesting (applyRules t) \<le> length t div 2"
    by (simp add: nesting_def applyRules_emit comp_def)
  then show ?case by linarith
qed

text \<open>
  C9. A part that stands for a match holds the captured text, which lies in the text
  between the two delimiters of the match, so it is shorter than the text by at least
  the two delimiters; the recursive call is on that captured text. Elements are
  therefore nested at most half the length of the text deep.
\<close>

theorem recursion_on_shorter_text:
  "(Obj content r \<in> set (all_parts t) \<longrightarrow>
      (\<exists>before after.
         t = before @ delimiter (regex r) @ content @ delimiter (regex r) @ after) \<and>
      0 < length (delimiter (regex r)) \<and>
      length content < length t) \<and>
   2 * nesting (applyRules t) \<le> length t"
proof (intro conjI impI)
  assume p: "Obj content r \<in> set (all_parts t)"
  then show "\<exists>before after.
      t = before @ delimiter (regex r) @ content @ delimiter (regex r) @ after"
    by (rule content_in_text)
  show "0 < length (delimiter (regex r))"
    by (rule delimiter_nonempty)
  from content_shorter [OF p] delimiter_nonempty [of "regex r"]
  show "length content < length t" by linarith
next
  show "2 * nesting (applyRules t) \<le> length t"
    by (rule nesting_bound)
qed

theorem recursion_on_shorter_text_witness:
  "Obj (str ''a'') (rules ! 2) \<in> set (all_parts example_text) \<and>
   (\<exists>before after. example_text =
      before @ delimiter (regex (rules ! 2)) @ str ''a'' @ delimiter (regex (rules ! 2)) @ after) \<and>
   length (str ''a'') < length example_text \<and>
   2 * nesting (applyRules example_text) \<le> length example_text"
proof -
  have p: "Obj (str ''a'') (rules ! 2) \<in> set (all_parts example_text)"
    by code_simp
  from recursion_on_shorter_text [of "str ''a''" "rules ! 2" example_text] p
  show ?thesis by blast
qed



section \<open>Reading the output back\<close>

text \<open>
  Reading an output back. An element shows its rule by its tag name and style; the
  delimiter of that rule is what the element stands for on both sides of its children.
\<close>

definition element_delimiter :: "string \<Rightarrow> string \<Rightarrow> jsstring" where
  "element_delimiter name css =
     (case find (\<lambda>r. createEl r [] = Element name css []) rules of
        Some r \<Rightarrow> delimiter (regex r)
      | None \<Rightarrow> [])"

text \<open>
  The characters an output stands for, in order, each marked as a character of a text
  node or as a character of a delimiter.
\<close>

datatype origin = Leaf | Marker

fun provenance :: "Node \<Rightarrow> (jschar \<times> origin) list" where
  "provenance (TextNode s) = map (\<lambda>c. (c, Leaf)) s"
| "provenance (Element name css children) =
     map (\<lambda>c. (c, Marker)) (element_delimiter name css) @
     concat (map provenance children) @
     map (\<lambda>c. (c, Marker)) (element_delimiter name css)"

text \<open>The text of the text nodes of an output, in order.\<close>

fun leaf_text :: "Node \<Rightarrow> jsstring" where
  "leaf_text (TextNode s) = s"
| "leaf_text (Element name css children) = concat (map leaf_text children)"

lemma leaf_text_provenance:
  "map fst (filter (\<lambda>x. snd x = Leaf) (provenance n)) = leaf_text n"
proof (induction n rule: provenance.induct)
  case (1 s)
  show ?case by (simp add: comp_def filter_map)
next
  case (2 name css children)
  have "map fst (filter (\<lambda>x. snd x = Leaf) (concat (map provenance children))) =
      concat (map leaf_text children)"
    using 2 by (induction children) simp_all
  then show ?case by (simp add: filter_map comp_def)
qed

lemma leaf_text_provenance_list:
  "map fst (filter (\<lambda>x. snd x = Leaf) (concat (map provenance ns))) =
     concat (map leaf_text ns)"
  by (induction ns) (simp_all add: leaf_text_provenance)

lemma select_step_rules:
  assumes "rule m \<in> set rules" and "\<forall>c r. Obj c r \<in> set (parts st) \<longrightarrow> r \<in> set rules"
  shows "\<forall>c r. Obj c r \<in> set (parts (select_step t st m)) \<longrightarrow> r \<in> set rules"
proof (cases "isOverlapping (processedRanges st) (index m) (index m + length_m m)")
  case True
  with assms(2) show ?thesis by (simp add: select_step_def Let_def)
next
  case False
  then have "set (parts (select_step t st m)) \<subseteq>
      set (parts st) \<union> {Str (substring t (lastIndex st) (index m)),
        Obj (exec_1 (match m)) (rule m)}"
    by (auto simp: select_step_def Let_def)
  with assms show ?thesis by blast
qed

lemma foldl_select_step_rules:
  assumes "\<forall>m \<in> set ms. rule m \<in> set rules"
    and "\<forall>c r. Obj c r \<in> set (parts st) \<longrightarrow> r \<in> set rules"
  shows "\<forall>c r. Obj c r \<in> set (parts (foldl (select_step t) st ms)) \<longrightarrow> r \<in> set rules"
  using assms
proof (induction ms arbitrary: st)
  case Nil
  then show ?case by simp
next
  case (Cons m ms)
  from Cons.prems(1) have m: "rule m \<in> set rules"
    and ms: "\<forall>m \<in> set ms. rule m \<in> set rules"
    by simp_all
  note step = select_step_rules [OF m Cons.prems(2), of t]
  from Cons.IH [OF ms step] show ?case by simp
qed

lemma element_delimiter_rules:
  "list_all (\<lambda>r. case createEl r [] of
      Element name css ch \<Rightarrow> element_delimiter name css = delimiter (regex r)
    | TextNode s \<Rightarrow> False) rules"
  by code_simp

lemma element_delimiter_createEl:
  assumes "r \<in> set rules"
  shows "provenance (createEl r children) =
     map (\<lambda>c. (c, Marker)) (delimiter (regex r)) @
     concat (map provenance children) @
     map (\<lambda>c. (c, Marker)) (delimiter (regex r))"
proof -
  from assms element_delimiter_rules have "case createEl r [] of
      Element name css ch \<Rightarrow> element_delimiter name css = delimiter (regex r)
    | TextNode s \<Rightarrow> False"
    by (simp only: list_all_iff)
  then show ?thesis
    by (simp add: createEl_def)
qed

lemma all_parts_rules:
  assumes "Obj c r \<in> set (all_parts t)"
  shows "r \<in> set rules"
proof -
  have "\<forall>m \<in> set (sort_matches (allMatches t)). rule m \<in> set rules"
    by (auto simp: set_sort_matches candidate_def dest: allMatches_candidate)
  then have "\<forall>c r. Obj c r \<in> set (parts (select t)) \<longrightarrow> r \<in> set rules"
    unfolding select_def by (rule foldl_select_step_rules) (simp add: initial_def)
  with assms show ?thesis
    by (auto simp: all_parts_def Let_def split: if_splits)
qed

lemma emit_source:
  assumes "p \<in> set (all_parts t)"
    and "\<And>content r. p = Obj content r \<Longrightarrow>
      map fst (concat (map provenance (applyRules content))) = content"
  shows "map fst (provenance (emit p)) = part_source p"
proof (cases p)
  case (Str s)
  then show ?thesis by (simp add: emit_simps comp_def)
next
  case (Obj content r)
  with assms(1) have "r \<in> set rules" by (auto dest: all_parts_rules)
  then have "provenance (createEl r (applyRules content)) =
      map (\<lambda>c. (c, Marker)) (delimiter (regex r)) @
      concat (map provenance (applyRules content)) @
      map (\<lambda>c. (c, Marker)) (delimiter (regex r))"
    by (rule element_delimiter_createEl)
  with Obj assms(2) [OF Obj] show ?thesis
    by (simp add: emit_simps comp_def)
qed

lemma applyRules_source: "map fst (concat (map provenance (applyRules t))) = t"
proof (induction t rule: applyRules.induct)
  case (1 t)
  have "map fst (provenance (emit p)) = part_source p" if "p \<in> set (all_parts t)" for p
    using that by (rule emit_source) (rule "1.IH" [OF that])
  then have "map (\<lambda>p. map fst (provenance (emit p))) (all_parts t) =
      map part_source (all_parts t)"
    by simp
  then have "concat (map (\<lambda>p. map fst (provenance (emit p))) (all_parts t)) = t"
    by (simp only: all_parts_source)
  then show ?case
    by (simp add: applyRules_emit map_concat comp_def)
qed

lemma all_parts_spans:
  "match_spans 0 (all_parts t) = map range_pair (processedRanges (select t))"
proof -
  from select_tiled [of t]
  have "match_spans 0 (parts (select t)) = map range_pair (processedRanges (select t))"
    unfolding tiled_def by blast
  then show ?thesis
    by (simp add: all_parts_def Let_def match_spans_append)
qed

text \<open>
  The marks the selection puts on the characters of a text: a character of a literal
  part is marked \<open>Leaf\<close>; of a match part, the characters of the two delimiters are
  marked \<open>Marker\<close> and those of the capture as the selection on the capture marks
  them.
\<close>

function marking :: "jsstring \<Rightarrow> origin list" where
  "marking text =
     concat (map (\<lambda>part. case part of
                    Str s \<Rightarrow> replicate (length s) Leaf
                  | Obj content r \<Rightarrow>
                      replicate (length (delimiter (regex r))) Marker @
                      marking content @
                      replicate (length (delimiter (regex r))) Marker)
               (all_parts text))"
  by pat_completeness auto
termination
proof (relation "measure length")
  show "wf (measure (length :: jsstring \<Rightarrow> nat))" by simp
next
  fix t :: jsstring and p :: Part and content :: jsstring and r :: Rule
  assume "p \<in> set (all_parts t)" and "p = Obj content r"
  then have "Obj content r \<in> set (all_parts t)" by simp
  from content_shorter [OF this] delimiter_nonempty [of "regex r"]
  have "length content < length t" by linarith
  then show "(content, t) \<in> measure length" by simp
qed

declare marking.simps [simp del]

definition part_marks :: "Part \<Rightarrow> origin list" where
  "part_marks part =
     (case part of
        Str s \<Rightarrow> replicate (length s) Leaf
      | Obj content r \<Rightarrow>
          replicate (length (delimiter (regex r))) Marker @
          marking content @
          replicate (length (delimiter (regex r))) Marker)"

lemma marking_parts [code]: "marking t = concat (map part_marks (all_parts t))"
  by (subst marking.simps) (simp add: part_marks_def [abs_def])

lemma part_marks_simps [code]:
  "part_marks (Str s) = replicate (length s) Leaf"
  "part_marks (Obj content r) =
     replicate (length (delimiter (regex r))) Marker @
     marking content @
     replicate (length (delimiter (regex r))) Marker"
  by (simp_all add: part_marks_def)

lemma length_concat_cong:
  assumes "\<And>x. x \<in> set xs \<Longrightarrow> length (f x) = length (g x)"
  shows "length (concat (map f xs)) = length (concat (map g xs))"
  using assms by (induction xs) simp_all

lemma length_marking: "length (marking t) = length t"
proof (induction t rule: marking.induct)
  case (1 t)
  have "length (part_marks p) = length (part_source p)" if p: "p \<in> set (all_parts t)" for p
  proof (cases p)
    case (Str s)
    then show ?thesis by (simp add: part_marks_simps)
  next
    case (Obj content r)
    from "1.IH" [OF p Obj] Obj show ?thesis by (simp add: part_marks_simps)
  qed
  then have "length (concat (map part_marks (all_parts t))) =
      length (concat (map part_source (all_parts t)))"
    by (rule length_concat_cong)
  then show ?case
    by (simp only: marking_parts all_parts_source)
qed

lemma length_part_marks: "length (part_marks p) = length (part_source p)"
  by (cases p) (simp_all add: part_marks_simps length_marking)

lemma zip_replicate_mark: "zip s (replicate (length s) a) = map (\<lambda>c. (c, a)) s"
  by (induction s) simp_all

lemma zip_concat:
  assumes "\<And>x. x \<in> set xs \<Longrightarrow> length (f x) = length (g x)"
  shows "zip (concat (map f xs)) (concat (map g xs)) = concat (map (\<lambda>x. zip (f x) (g x)) xs)"
  using assms by (induction xs) simp_all

lemma emit_marks:
  assumes "p \<in> set (all_parts t)"
    and "\<And>content r. p = Obj content r \<Longrightarrow>
      concat (map provenance (applyRules content)) = zip content (marking content)"
  shows "provenance (emit p) = zip (part_source p) (part_marks p)"
proof (cases p)
  case (Str s)
  then show ?thesis by (simp add: emit_simps part_marks_simps zip_replicate_mark)
next
  case (Obj content r)
  let ?d = "delimiter (regex r)"
  from assms(1) Obj have "r \<in> set rules" by (auto dest: all_parts_rules)
  then have "provenance (createEl r (applyRules content)) =
      map (\<lambda>c. (c, Marker)) ?d @
      concat (map provenance (applyRules content)) @
      map (\<lambda>c. (c, Marker)) ?d"
    by (rule element_delimiter_createEl)
  also have "\<dots> = zip ?d (replicate (length ?d) Marker) @ zip content (marking content) @
      zip ?d (replicate (length ?d) Marker)"
    by (simp only: assms(2) [OF Obj] zip_replicate_mark)
  also have "\<dots> = zip (?d @ content @ ?d)
      (replicate (length ?d) Marker @ marking content @ replicate (length ?d) Marker)"
    by (simp add: length_marking)
  finally show ?thesis
    using Obj by (simp add: emit_simps part_marks_simps)
qed

lemma applyRules_marking: "concat (map provenance (applyRules t)) = zip t (marking t)"
proof (induction t rule: applyRules.induct)
  case (1 t)
  have each: "provenance (emit p) = zip (part_source p) (part_marks p)"
    if "p \<in> set (all_parts t)" for p
    using that by (rule emit_marks) (rule "1.IH" [OF that])
  have "map (\<lambda>p. provenance (emit p)) (all_parts t) =
      map (\<lambda>p. zip (part_source p) (part_marks p)) (all_parts t)"
    by (rule map_cong [OF refl]) (rule each)
  moreover have "concat (map provenance (applyRules t)) =
      concat (map (\<lambda>p. provenance (emit p)) (all_parts t))"
    by (simp only: applyRules_emit map_map comp_def)
  ultimately have "concat (map provenance (applyRules t)) =
      concat (map (\<lambda>p. zip (part_source p) (part_marks p)) (all_parts t))"
    by (simp only:)
  also have "\<dots> = zip (concat (map part_source (all_parts t)))
      (concat (map part_marks (all_parts t)))"
    by (rule zip_concat [symmetric]) (simp add: length_part_marks)
  finally show ?case
    by (simp only: all_parts_source marking_parts)
qed

lemma nodes_of_parts:
  "list_all2 (\<lambda>part node. case part of
        Str s \<Rightarrow> node = TextNode s
      | Obj content r \<Rightarrow> node = createEl r (applyRules content))
     (all_parts t) (applyRules t)"
proof -
  have "list_all2 (\<lambda>part node. node = emit part) (all_parts t) (map emit (all_parts t))"
    by (simp add: list_all2_map2 list_all2_same)
  then have "list_all2 (\<lambda>part node. node = emit part) (all_parts t) (applyRules t)"
    by (simp only: applyRules_emit)
  then show ?thesis
    by (rule list_all2_mono) (simp add: emit_def split: Part.splits)
qed

lemma leaf_text_marking:
  "concat (map leaf_text (applyRules t)) =
     map fst (filter (\<lambda>x. snd x = Leaf) (zip t (marking t)))"
  by (simp only: leaf_text_provenance_list [symmetric] applyRules_marking)

text \<open>
  C1. Every literal part is emitted as a text node with that text, and every match
  part as the element of its rule whose children are the output for the capture. At one
  call, the literal parts and the matches with their delimiters, one after the other,
  are the scanned text, and the places the matches take in that sequence are the
  accepted ranges, in order. Read back with the delimiters of its elements put in
  again, the output is the input text, character by character, and the characters it
  shows as delimiters are those the selection marks, at every depth: the two
  delimiters of each selected match. The text of the text nodes is the input text
  without exactly those characters.
\<close>

theorem literal_round_trip:
  "list_all2 (\<lambda>part node. case part of
        Str s \<Rightarrow> node = TextNode s
      | Obj content r \<Rightarrow> node = createEl r (applyRules content))
     (all_parts t) (applyRules t) \<and>
   concat (map part_source (all_parts t)) = t \<and>
   match_spans 0 (all_parts t) = map range_pair (processedRanges (select t)) \<and>
   length (marking t) = length t \<and>
   concat (map provenance (applyRules t)) = zip t (marking t) \<and>
   concat (map leaf_text (applyRules t)) =
     map fst (filter (\<lambda>x. snd x = Leaf) (zip t (marking t))) \<and>
   map fst (concat (map provenance (applyRules t))) = t \<and>
   map fst (filter (\<lambda>x. snd x = Leaf) (concat (map provenance (applyRules t)))) =
     concat (map leaf_text (applyRules t))"
proof (intro conjI)
  show "list_all2 (\<lambda>part node. case part of
        Str s \<Rightarrow> node = TextNode s
      | Obj content r \<Rightarrow> node = createEl r (applyRules content))
     (all_parts t) (applyRules t)"
    by (rule nodes_of_parts)
  show "concat (map part_source (all_parts t)) = t"
    by (rule all_parts_source)
  show "match_spans 0 (all_parts t) = map range_pair (processedRanges (select t))"
    by (rule all_parts_spans)
  show "length (marking t) = length t"
    by (rule length_marking)
  show "concat (map provenance (applyRules t)) = zip t (marking t)"
    by (rule applyRules_marking)
  show "concat (map leaf_text (applyRules t)) =
     map fst (filter (\<lambda>x. snd x = Leaf) (zip t (marking t)))"
    by (rule leaf_text_marking)
  show "map fst (concat (map provenance (applyRules t))) = t"
    by (rule applyRules_source)
  show "map fst (filter (\<lambda>x. snd x = Leaf) (concat (map provenance (applyRules t)))) =
     concat (map leaf_text (applyRules t))"
    by (rule leaf_text_provenance_list)
qed

section \<open>Characters outside the accepted ranges\<close>






section \<open>The order of the candidates\<close>

text \<open>The place of a rule in the rule table, and the order of two candidates by it.\<close>

definition rule_position :: "Rule \<Rightarrow> nat" where
  "rule_position r = length (takeWhile (\<lambda>x. x \<noteq> r) rules)"

definition table_order :: "Match \<Rightarrow> Match \<Rightarrow> bool" where
  "table_order a b \<longleftrightarrow> rule_position (rule a) \<le> rule_position (rule b)"

lemma rule_positions: "map rule_position rules = [0, 1, 2, 3, 4, 5]"
  by code_simp

definition found_for :: "jsstring \<Rightarrow> Rule \<Rightarrow> Match list" where
  "found_for t r =
     map (\<lambda>m. \<lparr>index = exec_index m, length_m = length (exec_0 m), rule = r, match = m\<rparr>)
       (exec_loop (regex r) t 0)"

lemma found_for_rule: "a \<in> set (found_for t r) \<Longrightarrow> rule a = r"
  by (auto simp: found_for_def)

lemma allMatches_found_for: "allMatches t = concat (map (found_for t) rules)"
  by (simp add: allMatches_def found_for_def [abs_def])

lemma sorted_found_for_suffix:
  assumes "sorted_wrt (\<lambda>r r'. rule_position r \<le> rule_position r') rs"
  shows "sorted_wrt table_order (concat (map (found_for t) rs))"
  using assms
proof (induction rs)
  case Nil
  show ?case by simp
next
  case (Cons r rs)
  have same: "sorted_wrt table_order (found_for t r)"
  proof -
    have "table_order a b" if "a \<in> set (found_for t r)" "b \<in> set (found_for t r)" for a b
      using that by (simp add: table_order_def found_for_rule)
    then show ?thesis
      by (simp add: sorted_wrt_iff_nth_less)
  qed
  have later: "table_order a b"
    if "a \<in> set (found_for t r)" "b \<in> set (concat (map (found_for t) rs))" for a b
  proof -
    from that(2) obtain r' where "r' \<in> set rs" "b \<in> set (found_for t r')" by auto
    with that(1) Cons.prems show ?thesis
      by (auto simp: table_order_def found_for_rule)
  qed
  from Cons same later show ?case
    by (simp add: sorted_wrt_append)
qed

lemma allMatches_table_order: "sorted_wrt table_order (allMatches t)"
proof -
  have "sorted_wrt (\<lambda>i j. i \<le> j) (map rule_position rules)"
    by (simp only: rule_positions) simp
  then have "sorted_wrt (\<lambda>r r'. rule_position r \<le> rule_position r') rules"
    by (simp only: sorted_wrt_map)
  then show ?thesis
    unfolding allMatches_found_for by (rule sorted_found_for_suffix)
qed

lemma listed_before:
  assumes "sorted_wrt P l" and "a \<in> set l" and "b \<in> set l" and "a \<noteq> b" and "\<not> P b a"
  shows "\<exists>xs ys zs. l = xs @ a # ys @ b # zs"
proof -
  from assms(2) obtain xs rest where l: "l = xs @ a # rest"
    by (auto dest: split_list)
  from assms(1) l have "\<forall>x \<in> set xs. P x a"
    by (simp add: sorted_wrt_append)
  with assms(5) have "b \<notin> set xs" by blast
  with assms(3,4) l have "b \<in> set rest" by simp
  then obtain ys zs where "rest = ys @ b # zs"
    by (auto dest: split_list)
  with l show ?thesis by blast
qed

text \<open>The rules with a delimiter of one character and of two characters.\<close>

lemma single_delimiter_rule:
  "list_all (\<lambda>r. length (delimiter (regex r)) = 1 \<longrightarrow> delimiter (regex r) = [0x2A]) rules"
  by code_simp

lemma double_delimiter_rule:
  "list_all (\<lambda>r. length (delimiter (regex r)) = 2 \<and> hd (delimiter (regex r)) = 0x2A \<longrightarrow>
      delimiter (regex r) = [0x2A, 0x2A]) rules"
  by code_simp

lemma candidate_match_here:
  assumes "candidate t m"
  shows "match_here (regex (rule m)) (drop (index m) t) = Some (exec_1 (match m))"
    and "length_m m = 2 * length (delimiter (regex (rule m))) + length (exec_1 (match m))"
  using assms by (simp_all add: candidate_def found_by_def)

lemma single_after_double:
  assumes a: "candidate t a" and b: "candidate t b" and i: "index a = index b"
    and da: "delimiter (regex (rule a)) = [0x2A, 0x2A]"
    and db: "delimiter (regex (rule b)) = [0x2A]"
  shows "length_m b < length_m a"
proof -
  let ?s = "drop (index a) t"
  from candidate_match_here(1) [OF a] da have "take (Suc (Suc 0)) ?s = [0x2A, 0x2A]"
    by (simp add: match_here_def split: if_splits)
  then obtain rest where s: "?s = 0x2A # 0x2A # rest"
    by (cases ?s; cases "tl ?s") (auto split: if_splits)
  from candidate_match_here(1) [OF b] i db s have "exec_1 (match b) = []"
    by (simp add: match_here_def)
  with candidate_match_here(2) [OF b] db have "length_m b = 2" by simp
  moreover from candidate_match_here(2) [OF a] da have "4 \<le> length_m a" by simp
  ultimately show ?thesis by simp
qed

text \<open>
  C2. The list the selection walks is in the order of \<open>precedes\<close>: by start offset
  ascending, among equal starts by length descending, and among equal starts and
  lengths in the order of the rule table. A candidate of a rule with a two-character
  delimiter stands in that list before a candidate of a rule with a one-character
  delimiter that starts at the same offset.
\<close>

theorem candidates_ordered:
  "sorted_wrt (precedes table_order) (sort_matches (allMatches t)) \<and>
   (a \<in> set (allMatches t) \<and> b \<in> set (allMatches t) \<and> index a = index b \<and>
    length (delimiter (regex (rule a))) = 2 \<and> length (delimiter (regex (rule b))) = 1 \<longrightarrow>
      length_m b < length_m a \<and>
      (\<exists>xs ys zs. sort_matches (allMatches t) = xs @ a # ys @ b # zs))"
proof (intro conjI impI)
  show sorted: "sorted_wrt (precedes table_order) (sort_matches (allMatches t))"
    by (rule sorted_sort_matches) (rule allMatches_table_order)
  assume h: "a \<in> set (allMatches t) \<and> b \<in> set (allMatches t) \<and> index a = index b \<and>
    length (delimiter (regex (rule a))) = 2 \<and> length (delimiter (regex (rule b))) = 1"
  then have ca: "candidate t a" and cb: "candidate t b"
    by (simp_all add: allMatches_candidate)
  from h have i: "index a = index b" by simp
  from cb have "rule b \<in> set rules" by (simp add: candidate_def)
  with single_delimiter_rule h have db: "delimiter (regex (rule b)) = [0x2A]"
    by (simp add: list_all_iff)
  from candidate_match_here(1) [OF cb] db have "hd (drop (index b) t) = 0x2A"
    by (cases "drop (index b) t") (simp_all add: match_here_def split: if_splits)
  moreover from candidate_match_here(1) [OF ca] h
  have "hd (drop (index a) t) = hd (delimiter (regex (rule a)))"
    by (cases "drop (index a) t"; cases "delimiter (regex (rule a))")
      (simp_all add: match_here_def split: if_splits)
  ultimately have "hd (delimiter (regex (rule a))) = 0x2A"
    using i by simp
  moreover from ca have "rule a \<in> set rules" by (simp add: candidate_def)
  ultimately have da: "delimiter (regex (rule a)) = [0x2A, 0x2A]"
    using double_delimiter_rule h by (simp add: list_all_iff)
  from single_after_double [OF ca cb i da db]
  show less: "length_m b < length_m a" .
  from less i have "a \<noteq> b" and "\<not> precedes table_order b a"
    by (auto simp: precedes_def)
  with sorted h show "\<exists>xs ys zs. sort_matches (allMatches t) = xs @ a # ys @ b # zs"
    by (intro listed_before [where P = "precedes table_order"]) (simp_all add: set_sort_matches)
qed

theorem candidates_ordered_witness:
  "example_sorted ! 0 \<in> set (allMatches example_text) \<and>
   example_sorted ! 1 \<in> set (allMatches example_text) \<and>
   index (example_sorted ! 0) = index (example_sorted ! 1) \<and>
   length (delimiter (regex (rule (example_sorted ! 0)))) = 2 \<and>
   length (delimiter (regex (rule (example_sorted ! 1)))) = 1 \<and>
   length_m (example_sorted ! 1) < length_m (example_sorted ! 0) \<and>
   (\<exists>xs ys zs. sort_matches (allMatches example_text) =
      xs @ example_sorted ! 0 # ys @ example_sorted ! 1 # zs)"
proof -
  have h: "example_sorted ! 0 \<in> set (allMatches example_text) \<and>
   example_sorted ! 1 \<in> set (allMatches example_text) \<and>
   index (example_sorted ! 0) = index (example_sorted ! 1) \<and>
   length (delimiter (regex (rule (example_sorted ! 0)))) = 2 \<and>
   length (delimiter (regex (rule (example_sorted ! 1)))) = 1"
    by code_simp
  from candidates_ordered [of example_text "example_sorted ! 0" "example_sorted ! 1"] h
  show ?thesis by blast
qed

section \<open>Candidates never tie in start and length\<close>

lemma exec_loop_from:
  "m \<in> set (exec_loop re t i) \<Longrightarrow> i \<le> exec_index m"
proof (induction re t i rule: exec_loop.induct)
  case (1 re t lastIndex)
  show ?case
  proof (cases "regex_exec re t lastIndex")
    case None
    with "1.prems" show ?thesis by (simp add: exec_loop.simps [of re t lastIndex])
  next
    case (Some m')
    note b = regex_exec_bounds [OF Some]
    from Some "1.prems"
    have "m = m' \<or> m \<in> set (exec_loop re t (exec_index m' + length (exec_0 m')))"
      by (simp add: exec_loop.simps [of re t lastIndex])
    then show ?thesis
    proof
      assume "m = m'"
      with b(1) show ?thesis by simp
    next
      assume "m \<in> set (exec_loop re t (exec_index m' + length (exec_0 m')))"
      from "1.IH" [OF Some this] b(1) show ?thesis by linarith
    qed
  qed
qed

lemma exec_loop_apart:
  "sorted_wrt (\<lambda>m m'. exec_index m < exec_index m') (exec_loop re t i)"
proof (induction re t i rule: exec_loop.induct)
  case (1 re t lastIndex)
  show ?case
  proof (cases "regex_exec re t lastIndex")
    case None
    then show ?thesis by (simp add: exec_loop.simps [of re t lastIndex])
  next
    case (Some m')
    note b = regex_exec_bounds [OF Some]
    have "exec_index m' < exec_index m"
      if "m \<in> set (exec_loop re t (exec_index m' + length (exec_0 m')))" for m
      using exec_loop_from [OF that] b(2) by linarith
    with "1.IH" [OF Some] Some show ?thesis
      by (simp add: exec_loop.simps [of re t lastIndex])
  qed
qed

lemma found_for_same_index:
  assumes "a \<in> set (found_for t r)" and "b \<in> set (found_for t r)" and "index a = index b"
  shows "a = b"
proof -
  from assms(1) obtain m where m: "m \<in> set (exec_loop (regex r) t 0)"
    and a: "a = \<lparr>index = exec_index m, length_m = length (exec_0 m), rule = r, match = m\<rparr>"
    by (auto simp: found_for_def)
  from assms(2) obtain m' where m': "m' \<in> set (exec_loop (regex r) t 0)"
    and b: "b = \<lparr>index = exec_index m', length_m = length (exec_0 m'), rule = r, match = m'\<rparr>"
    by (auto simp: found_for_def)
  from assms(3) a b have eq: "exec_index m = exec_index m'" by simp
  have "m = m'"
  proof (rule ccontr)
    assume "m \<noteq> m'"
    with m m' exec_loop_apart [of "regex r" t 0]
    have "exec_index m < exec_index m' \<or> exec_index m' < exec_index m"
      by (auto simp: sorted_wrt_iff_nth_less in_set_conv_nth) (metis nat_neq_iff)
    with eq show False by simp
  qed
  with a b show ?thesis by simp
qed

text \<open>
  Two rules of the table whose delimiters begin with the same character are the same
  rule, or the delimiters are one and two asterisks.
\<close>

lemma same_first_character:
  "list_all (\<lambda>r. list_all (\<lambda>r'.
      hd (delimiter (regex r)) = hd (delimiter (regex r')) \<longrightarrow>
        r = r' \<or>
        delimiter (regex r) = [0x2A, 0x2A] \<and> delimiter (regex r') = [0x2A] \<or>
        delimiter (regex r) = [0x2A] \<and> delimiter (regex r') = [0x2A, 0x2A]) rules) rules"
  by code_simp

lemma candidate_first_character:
  assumes "candidate t m"
  shows "hd (drop (index m) t) = hd (delimiter (regex (rule m)))"
  using candidate_match_here(1) [OF assms] delimiter_nonempty [of "regex (rule m)"]
  by (cases "drop (index m) t"; cases "delimiter (regex (rule m))")
    (simp_all add: match_here_def split: if_splits)

text \<open>
  No two candidates of a text have both the same start and the same length, so the
  comparator never returns zero for two of them and every sort that follows the
  comparator gives the same list.
\<close>

lemma no_full_ties:
  assumes a: "a \<in> set (allMatches t)" and b: "b \<in> set (allMatches t)"
    and i: "index a = index b" and n: "length_m a = length_m b"
  shows "a = b"
proof -
  from a b have ca: "candidate t a" and cb: "candidate t b"
    by (simp_all add: allMatches_candidate)
  then have ra: "rule a \<in> set rules" and rb: "rule b \<in> set rules"
    by (simp_all add: candidate_def)
  from candidate_first_character [OF ca] candidate_first_character [OF cb] i
  have "hd (delimiter (regex (rule a))) = hd (delimiter (regex (rule b)))"
    by simp
  with same_first_character ra rb
  have "rule a = rule b \<or>
      delimiter (regex (rule a)) = [0x2A, 0x2A] \<and> delimiter (regex (rule b)) = [0x2A] \<or>
      delimiter (regex (rule a)) = [0x2A] \<and> delimiter (regex (rule b)) = [0x2A, 0x2A]"
    by (simp add: list_all_iff)
  moreover have False
    if "delimiter (regex (rule a)) = [0x2A, 0x2A]" "delimiter (regex (rule b)) = [0x2A]"
    using single_after_double [OF ca cb i that] n by simp
  moreover have False
    if "delimiter (regex (rule a)) = [0x2A]" "delimiter (regex (rule b)) = [0x2A, 0x2A]"
    using single_after_double [OF cb ca i [symmetric] that(2) that(1)] n by simp
  ultimately have same: "rule a = rule b" by blast
  from a obtain r where "r \<in> set rules" "a \<in> set (found_for t r)"
    by (auto simp: allMatches_found_for)
  with found_for_rule have fa: "a \<in> set (found_for t (rule a))" by blast
  from b obtain r' where "r' \<in> set rules" "b \<in> set (found_for t r')"
    by (auto simp: allMatches_found_for)
  with found_for_rule have "b \<in> set (found_for t (rule b))" by blast
  with same have fb: "b \<in> set (found_for t (rule a))" by simp
  from fa fb i show ?thesis by (rule found_for_same_index)
qed

end
